theory Spec2Isabelle
  imports Complex_Main "HOL-Library.Char_ord" "HOL-Library.Stream"
begin

section \<open>The character-level LSTM notebook\<close>

text \<open>
  The notebook \<^verbatim>\<open>Workshop/sessions/13_lstm.ipynb\<close> prepares a text corpus for a
  recurrent network: it builds a vocabulary, cuts the corpus into windows, one-hot
  encodes them, counts layer parameters and samples characters with a temperature.
  The notebook runs under Python 2: \<^verbatim>\<open>open(path).read()\<close> is a byte string, so a
  corpus is a \<^typ>\<open>string\<close> (a list of 8-bit characters), and \<^verbatim>\<open>range\<close> builds a list.
\<close>

subsection \<open>Exceptions\<close>

datatype error = ValueError | IndexError | KeyError

subsection \<open>Parameter counts\<close>

text \<open>
  \<^verbatim>\<open>def num_lstm_params(input_dim, num_cells):
    return 4 * (input_dim * num_cells + num_cells * num_cells + num_cells)
def num_fc_params(input_dim, num_neurons):
    return input_dim * num_neurons + num_neurons\<close>
\<close>

definition num_lstm_params :: "int \<Rightarrow> int \<Rightarrow> int" where
  "num_lstm_params input_dim num_cells =
     4 * (input_dim * num_cells + num_cells * num_cells + num_cells)"

definition num_fc_params :: "int \<Rightarrow> int \<Rightarrow> int" where
  "num_fc_params input_dim num_neurons = input_dim * num_neurons + num_neurons"

subsection \<open>Vocabulary\<close>

text \<open>
  \<^verbatim>\<open>chars = sorted(list(set(text)))
char2idx = dict((c, i) for i, c in enumerate(chars))
idx2char = dict((i, c) for i, c in enumerate(chars))\<close>

  \<^verbatim>\<open>dict\<close> stores the pairs in the order they come, a later pair replacing an earlier
  one with the same key. A subscript on a missing key raises \<^verbatim>\<open>KeyError\<close>.
\<close>

definition chars :: "string \<Rightarrow> char list" where
  "chars text = sorted_list_of_set (set text)"

definition dict :: "('k \<times> 'v) list \<Rightarrow> ('k \<rightharpoonup> 'v)" where
  "dict kvs = fold (\<lambda>(k, v) m. m(k \<mapsto> v)) kvs Map.empty"

definition char2idx :: "string \<Rightarrow> (char \<rightharpoonup> nat)" where
  "char2idx text = dict (map (\<lambda>(i, c). (c, i)) (enumerate 0 (chars text)))"

definition idx2char :: "string \<Rightarrow> (nat \<rightharpoonup> char)" where
  "idx2char text = dict (map (\<lambda>(i, c). (i, c)) (enumerate 0 (chars text)))"

definition subscript :: "('k \<rightharpoonup> 'v) \<Rightarrow> 'k \<Rightarrow> error + 'v" where
  "subscript d k = (case d k of None \<Rightarrow> Inl KeyError | Some v \<Rightarrow> Inr v)"

subsection \<open>Python sequences\<close>

text \<open>
  \<^verbatim>\<open>range(start, stop, step)\<close> raises \<^verbatim>\<open>ValueError\<close> for a zero step, counts up for
  a positive one and down for a negative one.
\<close>

function range_up :: "int \<Rightarrow> int \<Rightarrow> int \<Rightarrow> int list" where
  "range_up i stop step =
     (if 0 < step \<and> i < stop then i # range_up (i + step) stop step else [])"
  by pat_completeness auto
termination
  by (relation "measure (\<lambda>(i, stop, step). nat (stop - i))") auto

function range_down :: "int \<Rightarrow> int \<Rightarrow> int \<Rightarrow> int list" where
  "range_down i stop step =
     (if step < 0 \<and> stop < i then i # range_down (i + step) stop step else [])"
  by pat_completeness auto
termination
  by (relation "measure (\<lambda>(i, stop, step). nat (i - stop))") auto

declare range_up.simps [simp del] range_down.simps [simp del]

definition py_range :: "int \<Rightarrow> int \<Rightarrow> int \<Rightarrow> error + int list" where
  "py_range start stop step =
     (if step = 0 then Inl ValueError
      else if 0 < step then Inr (range_up start stop step)
      else Inr (range_down start stop step))"

text \<open>
  \<^verbatim>\<open>xs[i]\<close> counts a negative index from the end and raises \<^verbatim>\<open>IndexError\<close> outside
  the sequence; a slice \<^verbatim>\<open>xs[lo:hi]\<close> never raises: it clips both ends to the sequence.
\<close>

definition py_index :: "'a list \<Rightarrow> int \<Rightarrow> error + 'a" where
  "py_index xs i =
     (let n = int (length xs) in
      if 0 \<le> i \<and> i < n then Inr (xs ! nat i)
      else if - n \<le> i \<and> i < 0 then Inr (xs ! nat (n + i))
      else Inl IndexError)"

definition clip :: "nat \<Rightarrow> int \<Rightarrow> nat" where
  "clip n i = (if i < 0 then nat (max 0 (i + int n)) else min (nat i) n)"

definition py_slice :: "'a list \<Rightarrow> int \<Rightarrow> int \<Rightarrow> 'a list" where
  "py_slice xs lo hi = take (clip (length xs) hi - clip (length xs) lo) (drop (clip (length xs) lo) xs)"

subsection \<open>Windowing\<close>

text \<open>
  \<^verbatim>\<open>sentences = []
next_chars = []
for i in range(0, len(text) - maxlen, step):
    sentences.append(text[i: i + maxlen])
    next_chars.append(text[i + maxlen])\<close>

  The loop state is the pair of lists; an exception ends the loop.
\<close>

fun window_loop ::
  "string \<Rightarrow> int \<Rightarrow> int list \<Rightarrow> string list \<times> char list \<Rightarrow> error + string list \<times> char list"
where
  "window_loop text maxlen [] (sentences, next_chars) = Inr (sentences, next_chars)"
| "window_loop text maxlen (i # rest) (sentences, next_chars) =
     (let sentences' = sentences @ [py_slice text i (i + maxlen)] in
      case py_index text (i + maxlen) of
        Inl e \<Rightarrow> Inl e
      | Inr c \<Rightarrow> window_loop text maxlen rest (sentences', next_chars @ [c]))"

definition windowing :: "string \<Rightarrow> int \<Rightarrow> int \<Rightarrow> error + string list \<times> char list" where
  "windowing text maxlen step =
     (case py_range 0 (int (length text) - maxlen) step of
        Inl e \<Rightarrow> Inl e
      | Inr starts \<Rightarrow> window_loop text maxlen starts ([], []))"

subsection \<open>Vectorization\<close>

text \<open>
  \<^verbatim>\<open>X = np.zeros((len(sentences), maxlen, len(chars)), dtype=np.bool)
y = np.zeros((len(sentences), len(chars)), dtype=np.bool)
for i, sentence in enumerate(sentences):
    for t, char in enumerate(sentence):
        X[i, t, char2idx[char]] = 1
    y[i, char2idx[next_chars[i]]] = 1\<close>

  A boolean array is a nested list of \<^typ>\<open>bool\<close>. \<^verbatim>\<open>np.zeros\<close> refuses a negative
  dimension with \<^verbatim>\<open>ValueError\<close>; an assignment at a position outside the array raises
  \<^verbatim>\<open>IndexError\<close>. The indices come from \<^verbatim>\<open>enumerate\<close> and the vocabulary, so they
  are natural numbers.
\<close>

type_synonym tensor2 = "bool list list"
type_synonym tensor3 = "bool list list list"

definition zeros2 :: "nat \<Rightarrow> nat \<Rightarrow> tensor2" where
  "zeros2 a b = replicate a (replicate b False)"

definition zeros3 :: "nat \<Rightarrow> int \<Rightarrow> nat \<Rightarrow> error + tensor3" where
  "zeros3 a b c =
     (if b < 0 then Inl ValueError
      else Inr (replicate a (replicate (nat b) (replicate c False))))"

definition set2 :: "tensor2 \<Rightarrow> nat \<Rightarrow> nat \<Rightarrow> error + tensor2" where
  "set2 y i k =
     (if i < length y \<and> k < length (y ! i)
      then Inr (y[i := (y ! i)[k := True]])
      else Inl IndexError)"

definition set3 :: "tensor3 \<Rightarrow> nat \<Rightarrow> nat \<Rightarrow> nat \<Rightarrow> error + tensor3" where
  "set3 X i t k =
     (if i < length X \<and> t < length (X ! i) \<and> k < length (X ! i ! t)
      then Inr (X[i := (X ! i)[t := (X ! i ! t)[k := True]]])
      else Inl IndexError)"

fun encode_sentence ::
  "(char \<rightharpoonup> nat) \<Rightarrow> nat \<Rightarrow> (nat \<times> char) list \<Rightarrow> tensor3 \<Rightarrow> error + tensor3"
where
  "encode_sentence c2i i [] X = Inr X"
| "encode_sentence c2i i ((t, ch) # rest) X =
     (case subscript c2i ch of
        Inl e \<Rightarrow> Inl e
      | Inr k \<Rightarrow>
          (case set3 X i t k of
             Inl e \<Rightarrow> Inl e
           | Inr X' \<Rightarrow> encode_sentence c2i i rest X'))"

fun encode_all ::
  "(char \<rightharpoonup> nat) \<Rightarrow> char list \<Rightarrow> (nat \<times> string) list \<Rightarrow> tensor3 \<times> tensor2 \<Rightarrow>
     error + tensor3 \<times> tensor2"
where
  "encode_all c2i next_chars [] (X, y) = Inr (X, y)"
| "encode_all c2i next_chars ((i, sentence) # rest) (X, y) =
     (case encode_sentence c2i i (enumerate 0 sentence) X of
        Inl e \<Rightarrow> Inl e
      | Inr X' \<Rightarrow>
          (case py_index next_chars (int i) of
             Inl e \<Rightarrow> Inl e
           | Inr c \<Rightarrow>
               (case subscript c2i c of
                  Inl e \<Rightarrow> Inl e
                | Inr k \<Rightarrow>
                    (case set2 y i k of
                       Inl e \<Rightarrow> Inl e
                     | Inr y' \<Rightarrow> encode_all c2i next_chars rest (X', y')))))"

definition vectorize ::
  "string list \<Rightarrow> char list \<Rightarrow> int \<Rightarrow> char list \<Rightarrow> (char \<rightharpoonup> nat) \<Rightarrow> error + tensor3 \<times> tensor2"
where
  "vectorize sentences next_chars maxlen cs c2i =
     (case zeros3 (length sentences) maxlen (length cs) of
        Inl e \<Rightarrow> Inl e
      | Inr X \<Rightarrow>
          encode_all c2i next_chars (enumerate 0 sentences)
            (X, zeros2 (length sentences) (length cs)))"

text \<open>The cells of the notebook up to the vectorization, run on a corpus.\<close>

definition prepare :: "string \<Rightarrow> int \<Rightarrow> int \<Rightarrow> error + tensor3 \<times> tensor2" where
  "prepare text maxlen step =
     (case windowing text maxlen step of
        Inl e \<Rightarrow> Inl e
      | Inr (sentences, next_chars) \<Rightarrow>
          vectorize sentences next_chars maxlen (chars text) (char2idx text))"

text \<open>The one-hot code of index \<open>k\<close> among \<open>v\<close> classes: a single 1, at \<open>k\<close>.\<close>

definition one_hot :: "nat \<Rightarrow> nat \<Rightarrow> bool list" where
  "one_hot v k = map (\<lambda>j. j = k) [0..<v]"

subsection \<open>Floating-point values\<close>

text \<open>
  The sampler computes on \<^verbatim>\<open>float64\<close> arrays. A value is modelled as an exact real
  number or one of the special values of IEEE 754, which \<^verbatim>\<open>np.log\<close>, \<^verbatim>\<open>np.exp\<close> and
  the division produce and propagate without raising: \<^verbatim>\<open>np.log(0.0)\<close> is \<open>-inf\<close>,
  the logarithm of a negative number is \<open>nan\<close>, \<^verbatim>\<open>np.exp(-inf)\<close> is \<open>0.0\<close>.

  Finite arithmetic is exact here: the rounding of finite results, their overflow and
  underflow and the sign of zero are not modelled, so that on most inputs the finite
  values of the model are not the values of the code. The properties below are of two
  kinds only: those that hold whatever the arithmetic gives (they never look into the
  values of \<open>tempered\<close>), and those that evaluate it on the entries 0, 1/2 and 1 at
  the temperature 1 or on 0 and 1 at any positive temperature, where \<^verbatim>\<open>float64\<close>
  gives the same values.
\<close>

datatype float64 = Fin real | PInf | NInf | NaN

fun np_log :: "float64 \<Rightarrow> float64" where
  "np_log (Fin x) = (if 0 < x then Fin (ln x) else if x = 0 then NInf else NaN)"
| "np_log PInf = PInf"
| "np_log NInf = NaN"
| "np_log NaN = NaN"

fun np_exp :: "float64 \<Rightarrow> float64" where
  "np_exp (Fin x) = Fin (exp x)"
| "np_exp PInf = PInf"
| "np_exp NInf = Fin 0"
| "np_exp NaN = NaN"

fun fdiv :: "float64 \<Rightarrow> float64 \<Rightarrow> float64" where
  "fdiv NaN b = NaN"
| "fdiv a NaN = NaN"
| "fdiv (Fin a) (Fin b) =
     (if b \<noteq> 0 then Fin (a / b)
      else if a = 0 then NaN else if 0 < a then PInf else NInf)"
| "fdiv (Fin a) b = Fin 0"
| "fdiv PInf (Fin b) = (if 0 \<le> b then PInf else NInf)"
| "fdiv NInf (Fin b) = (if 0 \<le> b then NInf else PInf)"
| "fdiv a b = NaN"

fun fadd :: "float64 \<Rightarrow> float64 \<Rightarrow> float64" where
  "fadd NaN b = NaN"
| "fadd a NaN = NaN"
| "fadd (Fin a) (Fin b) = Fin (a + b)"
| "fadd PInf NInf = NaN"
| "fadd NInf PInf = NaN"
| "fadd PInf b = PInf"
| "fadd a PInf = PInf"
| "fadd NInf b = NInf"
| "fadd a NInf = NInf"

definition np_sum :: "float64 list \<Rightarrow> float64" where
  "np_sum xs = foldl fadd (Fin 0) xs"

text \<open>
  \<^verbatim>\<open>np.argmax\<close> returns the position of the first maximum of the flattened array and
  raises \<^verbatim>\<open>ValueError\<close> on an empty one.
\<close>

fun argmax_loop :: "int list \<Rightarrow> nat \<Rightarrow> nat \<Rightarrow> int \<Rightarrow> nat" where
  "argmax_loop [] j best m = best"
| "argmax_loop (x # xs) j best m =
     (if m < x then argmax_loop xs (Suc j) j x else argmax_loop xs (Suc j) best m)"

definition np_argmax :: "int list list \<Rightarrow> error + nat" where
  "np_argmax a =
     (case concat a of
        [] \<Rightarrow> Inl ValueError
      | x # xs \<Rightarrow> Inr (argmax_loop xs 1 0 x))"

subsection \<open>The random generator\<close>

text \<open>
  \<^verbatim>\<open>np.random.multinomial\<close> draws from the generator of the process, which is not an
  argument of \<^verbatim>\<open>sample\<close>. The library is not part of the notebook; the model follows
  the generator of the numpy releases that run under Python 2 (\<^verbatim>\<open>mtrand\<close> on
  \<^verbatim>\<open>randomkit\<close>). The state of the generator is modelled as the stream of the
  uniform variates of \<open>[0, 1)\<close> that \<^verbatim>\<open>rk_double\<close> will hand out: a draw takes the head
  and leaves the tail.

  Only the call \<^verbatim>\<open>np.random.multinomial(1, pvals, 1)\<close> is made: one row, one trial.
  \<^verbatim>\<open>multinomial\<close> walks the classes but the last with the mass \<^verbatim>\<open>Sum\<close> not yet
  passed, and asks \<^verbatim>\<open>rk_binomial(state, 1, pvals[j] / Sum)\<close> whether class \<open>j\<close> takes
  the trial; it stops at the first class that does, and the last class takes a trial
  that no other took. With one trial \<^verbatim>\<open>rk_binomial\<close> works by inversion:
  \<^verbatim>\<open>rk_binomial_inversion(state, 1, p)\<close> reads one variate \<open>U\<close> and counts 1 when
  \<open>U > 1 - p\<close>; for \<open>p > 0.5\<close> the count is \<open>1 - rk_binomial_inversion(state, 1, 1 - p)\<close>.
  The row counts the trial: a single 1. The library refuses \<^verbatim>\<open>pvals\<close> whose leading
  entries sum to more than \<open>1 + 1e-12\<close>; entries that are not numbers of \<open>[0, 1]\<close>
  are refused here as well.
\<close>

type_synonym rng = "real stream"

definition rk_double :: "rng \<Rightarrow> real \<times> rng" where
  "rk_double rng = (shd rng, stl rng)"

definition rk_binomial_inversion :: "real \<Rightarrow> rng \<Rightarrow> nat \<times> rng" where
  "rk_binomial_inversion p rng =
     (let (u, rng') = rk_double rng in (if 1 - p < u then 1 else 0, rng'))"

definition rk_binomial :: "real \<Rightarrow> rng \<Rightarrow> nat \<times> rng" where
  "rk_binomial p rng =
     (if p \<le> 1 / 2 then rk_binomial_inversion p rng
      else (let (x, rng') = rk_binomial_inversion (1 - p) rng in (1 - x, rng')))"

fun first_taken :: "real list \<Rightarrow> real \<Rightarrow> nat \<Rightarrow> rng \<Rightarrow> nat \<times> rng" where
  "first_taken [] mass j rng = (j, rng)"
| "first_taken (p # ps) mass j rng =
     (let (x, rng') = rk_binomial (p / mass) rng in
      if 1 \<le> x then (j, rng')
      else first_taken ps (mass - p) (Suc j) rng')"

fun finite_values :: "float64 list \<Rightarrow> real list option" where
  "finite_values [] = Some []"
| "finite_values (Fin x # xs) = map_option ((#) x) (finite_values xs)"
| "finite_values (a # xs) = None"

definition multinomial1 :: "float64 list \<Rightarrow> rng \<Rightarrow> error + int list list \<times> rng" where
  "multinomial1 pvals rng =
     (case finite_values pvals of
        None \<Rightarrow> Inl ValueError
      | Some ps \<Rightarrow>
          if list_ex (\<lambda>p. p < 0 \<or> 1 < p) ps \<or> 1 + 1 / 10 ^ 12 < sum_list (butlast ps)
          then Inl ValueError
          else
            (let (i, rng') = first_taken (butlast ps) 1 0 rng in
             Inr ([map (\<lambda>j. if j = i then 1 else 0) [0..<length ps]], rng')))"

subsection \<open>The sampler\<close>

text \<open>
  \<^verbatim>\<open>def sample(preds, temperature=1.0):
    preds = np.asarray(preds).astype('float64')
    preds = np.log(preds) / temperature
    exp_preds = np.exp(preds)
    preds = exp_preds / np.sum(exp_preds)
    probas = np.random.multinomial(1, preds, 1)
    return np.argmax(probas)\<close>

  \<open>tempered\<close> is the body up to the renormalisation, \<open>sample\<close> the whole function:
  it takes the generator state and returns the index with the state left behind.
\<close>

definition tempered :: "float64 list \<Rightarrow> float64 \<Rightarrow> float64 list" where
  "tempered preds temperature =
     (let preds' = map (\<lambda>p. fdiv (np_log p) temperature) preds;
          exp_preds = map np_exp preds'
      in map (\<lambda>e. fdiv e (np_sum exp_preds)) exp_preds)"

definition sample :: "float64 list \<Rightarrow> float64 \<Rightarrow> rng \<Rightarrow> error + nat \<times> rng" where
  "sample preds temperature rng =
     (let preds' = tempered preds temperature in
      case multinomial1 preds' rng of
        Inl e \<Rightarrow> Inl e
      | Inr (probas, rng') \<Rightarrow>
          (case np_argmax probas of
             Inl e \<Rightarrow> Inl e
           | Inr i \<Rightarrow> Inr (i, rng')))"

section \<open>Properties\<close>

text \<open>
  C10. The parameter-count functions are \<open>4 * (d*n + n*n + n)\<close> for the recurrent
  layer and \<open>d*n + n\<close> for a dense layer; on the notebook's dimensions they give
  96256, 16512 and 7611, the counts printed by the model summary.
\<close>

theorem param_counts:
  "num_lstm_params d n = 4 * (d * n + n * n + n) \<and>
   num_fc_params d n = d * n + n \<and>
   num_lstm_params 59 128 = 96256 \<and>
   num_fc_params 128 128 = 16512 \<and>
   num_fc_params 128 59 = 7611"
  by (simp add: num_lstm_params_def num_fc_params_def)

subsection \<open>Vocabulary\<close>

lemma dict_fold: "fold (\<lambda>(k, v) m. m(k \<mapsto> v)) kvs m = m ++ map_of (rev kvs)"
  by (induction kvs arbitrary: m) (auto simp: map_add_def fun_eq_iff split: option.splits)

lemma dict_Some_iff:
  "distinct (map fst kvs) \<Longrightarrow> dict kvs k = Some v \<longleftrightarrow> (k, v) \<in> set kvs"
  by (simp add: dict_def dict_fold rev_map [symmetric])

lemma chars_props: "sorted (chars text) \<and> distinct (chars text) \<and> set (chars text) = set text"
  by (simp add: chars_def)

lemma idx2char_Some_iff:
  "idx2char text i = Some c \<longleftrightarrow> i < length (chars text) \<and> chars text ! i = c"
  unfolding idx2char_def
  by (subst dict_Some_iff) (auto simp: in_set_enumerate_eq)

lemma char2idx_Some_iff:
  "char2idx text c = Some i \<longleftrightarrow> i < length (chars text) \<and> chars text ! i = c"
proof -
  have d: "distinct (map fst (map (\<lambda>(i, c). (c, i)) (enumerate 0 (chars text))))"
  proof -
    have "map fst (map (\<lambda>(i, c). (c, i)) (enumerate 0 (chars text))) = map snd (enumerate 0 (chars text))"
      by (simp add: case_prod_unfold comp_def)
    then show ?thesis by (simp add: chars_props)
  qed
  show ?thesis
    unfolding char2idx_def
    by (subst dict_Some_iff [OF d]) (auto simp: in_set_enumerate_eq)
qed

text \<open>
  C3. \<open>char2idx\<close> and \<open>idx2char\<close> are mutually inverse bijections between the
  distinct characters of the corpus and the indices below the vocabulary size: every
  corpus character maps to an index that maps back to it, every index in range maps to
  a character that maps back to it, and \<open>chars\<close> is the sorted list of the distinct
  corpus characters.
\<close>

theorem vocabulary_bijection:
  "(\<forall>c \<in> set text. \<exists>i. char2idx text c = Some i \<and> idx2char text i = Some c) \<and>
   (\<forall>i < length (chars text). \<exists>c. idx2char text i = Some c \<and> char2idx text c = Some i) \<and>
   dom (char2idx text) = set text \<and>
   dom (idx2char text) = {..<length (chars text)} \<and>
   sorted (chars text) \<and> distinct (chars text) \<and> set (chars text) = set text"
proof -
  have 1: "\<exists>i. char2idx text c = Some i \<and> idx2char text i = Some c" if "c \<in> set text" for c
  proof -
    from that have "c \<in> set (chars text)" by (simp add: chars_props)
    then obtain i where "i < length (chars text)" "chars text ! i = c"
      by (auto simp: in_set_conv_nth)
    then show ?thesis by (auto simp: char2idx_Some_iff idx2char_Some_iff)
  qed
  have 2: "\<exists>c. idx2char text i = Some c \<and> char2idx text c = Some i" if "i < length (chars text)" for i
    using that by (auto simp: char2idx_Some_iff idx2char_Some_iff)
  have 3: "dom (char2idx text) = set text"
  proof -
    have "dom (char2idx text) = set (chars text)"
      by (auto simp: dom_def char2idx_Some_iff in_set_conv_nth)
    then show ?thesis by (simp add: chars_props)
  qed
  have 4: "dom (idx2char text) = {..<length (chars text)}"
    by (auto simp: dom_def idx2char_Some_iff)
  from 1 2 3 4 chars_props show ?thesis by blast
qed

theorem vocabulary_bijection_witness:
  "CHR ''c'' \<in> set ''the cat sat'' \<and>
   (\<exists>i. char2idx ''the cat sat'' CHR ''c'' = Some i \<and> idx2char ''the cat sat'' i = Some CHR ''c'') \<and>
   dom (char2idx ''the cat sat'') = set ''the cat sat''"
proof -
  have m: "CHR ''c'' \<in> set ''the cat sat''" by simp
  have b: "\<forall>c \<in> set ''the cat sat''. \<exists>i. char2idx ''the cat sat'' c = Some i \<and> idx2char ''the cat sat'' i = Some c"
    using vocabulary_bijection [of "''the cat sat''"] by (rule conjunct1)
  have d: "dom (char2idx ''the cat sat'') = set ''the cat sat''"
    using vocabulary_bijection [of "''the cat sat''"] by (elim conjE)
  from bspec [OF b m] m d show ?thesis by (intro conjI)
qed

subsection \<open>Windowing\<close>

lemma range_up_eq:
  "0 < step \<Longrightarrow>
   range_up i stop step = map (\<lambda>k. i + int k * step) [0..<nat ((stop - i + step - 1) div step)]"
proof (induction i stop step rule: range_up.induct)
  case (1 i stop step)
  show ?case
  proof (cases "i < stop")
    case True
    have c: "(stop - i + step - 1) div step = (stop - (i + step) + step - 1) div step + 1"
    proof -
      have "stop - i + step - 1 = (stop - (i + step) + step - 1) + step" by simp
      then show ?thesis using 1(2) by (smt (verit, del_insts) div_add_self2)
    qed
    have nn: "0 \<le> (stop - (i + step) + step - 1) div step"
      using True 1(2) by (simp add: pos_imp_zdiv_nonneg_iff)
    have n: "nat ((stop - i + step - 1) div step) = Suc (nat ((stop - (i + step) + step - 1) div step))"
      using c nn by simp
    have "range_up i stop step = i # range_up (i + step) stop step"
      using True 1(2) by (subst range_up.simps) simp
    also have "\<dots> = i # map (\<lambda>k. i + step + int k * step) [0..<nat ((stop - (i + step) + step - 1) div step)]"
      using 1(1) True 1(2) by simp
    also have "\<dots> = map (\<lambda>k. i + int k * step) [0..<nat ((stop - i + step - 1) div step)]"
      unfolding n by (simp add: upt_conv_Cons map_Suc_upt [symmetric] algebra_simps del: upt_Suc)
    finally show ?thesis .
  next
    case False
    then have "(stop - i + step - 1) div step \<le> 0"
      using 1(2) by (smt (verit, ccfv_SIG) nonneg1_imp_zdiv_pos_iff pos_imp_zdiv_nonneg_iff)
    moreover have "range_up i stop step = []"
      using False by (subst range_up.simps) simp
    ultimately show ?thesis by simp
  qed
qed

lemma range_up_bounds:
  "x \<in> set (range_up i stop step) \<Longrightarrow> i \<le> x \<and> x < stop"
proof (induction i stop step rule: range_up.induct)
  case (1 i stop step)
  show ?case
  proof (cases "0 < step \<and> i < stop")
    case True
    then have "range_up i stop step = i # range_up (i + step) stop step"
      by (subst range_up.simps) simp
    with 1(2) have "x = i \<or> x \<in> set (range_up (i + step) stop step)" by simp
    then show ?thesis using 1(1) True by auto
  next
    case False
    then have "range_up i stop step = []" by (subst range_up.simps) simp
    with 1(2) show ?thesis by simp
  qed
qed

lemma range_down_empty: "i \<le> stop \<Longrightarrow> range_down i stop step = []"
  by (subst range_down.simps) simp

lemma le_div_pos_iff:
  fixes a b c :: int
  assumes "0 < c"
  shows "a \<le> b div c \<longleftrightarrow> a * c \<le> b"
proof
  assume "a \<le> b div c"
  then have "a * c \<le> (b div c) * c" using assms by (simp add: mult_right_mono)
  also have "\<dots> = b - b mod c" by (simp add: algebra_simps minus_mod_eq_mult_div)
  also have "\<dots> \<le> b" using assms by simp
  finally show "a * c \<le> b" .
next
  assume "a * c \<le> b"
  then have "(a * c) div c \<le> b div c" using assms by (rule zdiv_mono1)
  then show "a \<le> b div c" using assms by simp
qed

lemma count_iff:
  assumes "0 < step"
  shows "k < nat ((n + step - 1) div step) \<longleftrightarrow> int k * step < n"
proof -
  have "int k < (n + step - 1) div step \<longleftrightarrow> int k + 1 \<le> (n + step - 1) div step" by linarith
  also have "\<dots> \<longleftrightarrow> (int k + 1) * step \<le> n + step - 1"
    using assms by (rule le_div_pos_iff)
  also have "\<dots> \<longleftrightarrow> int k * step < n"
  proof -
    have "(int k + 1) * step = int k * step + step" by (simp add: algebra_simps)
    then show ?thesis by linarith
  qed
  finally have "int k < (n + step - 1) div step \<longleftrightarrow> int k * step < n" .
  then show ?thesis by (simp add: zless_nat_eq_int_zless)
qed

lemma py_slice_window:
  "0 \<le> i \<Longrightarrow> 0 \<le> maxlen \<Longrightarrow> i + maxlen \<le> int (length text) \<Longrightarrow>
   py_slice text i (i + maxlen) = take (nat maxlen) (drop (nat i) text)"
proof -
  assume a: "0 \<le> i" "0 \<le> maxlen" "i + maxlen \<le> int (length text)"
  then have "clip (length text) i = nat i" "clip (length text) (i + maxlen) = nat i + nat maxlen"
    by (auto simp: clip_def min_def nat_add_distrib)
  then show ?thesis by (simp add: py_slice_def)
qed

lemma py_index_window:
  "0 \<le> j \<Longrightarrow> j < int (length text) \<Longrightarrow> py_index text j = Inr (text ! nat j)"
  by (simp add: py_index_def)

lemma window_loop_ok:
  "0 \<le> maxlen \<Longrightarrow> \<forall>i \<in> set starts. 0 \<le> i \<and> i + maxlen < int (length text) \<Longrightarrow>
   window_loop text maxlen starts (S, N) =
     Inr (S @ map (\<lambda>i. take (nat maxlen) (drop (nat i) text)) starts,
          N @ map (\<lambda>i. text ! nat (i + maxlen)) starts)"
proof (induction starts arbitrary: S N)
  case Nil
  then show ?case by simp
next
  case (Cons i rest)
  then have i: "0 \<le> i" "i + maxlen < int (length text)" by auto
  have "py_index text (i + maxlen) = Inr (text ! nat (i + maxlen))"
    using i Cons.prems(1) by (simp add: py_index_window)
  moreover have "py_slice text i (i + maxlen) = take (nat maxlen) (drop (nat i) text)"
    using i Cons.prems(1) by (simp add: py_slice_window)
  ultimately show ?case using Cons by simp
qed


lemma windowing_closed_form:
  assumes "0 \<le> maxlen" and "0 < step"
  shows "windowing text maxlen step =
       Inr (map (\<lambda>k. take (nat maxlen) (drop (k * nat step) text))
              [0..<nat ((int (length text) - maxlen + step - 1) div step)],
            map (\<lambda>k. text ! (k * nat step + nat maxlen))
              [0..<nat ((int (length text) - maxlen + step - 1) div step)])"
    and "k < nat ((int (length text) - maxlen + step - 1) div step) \<longleftrightarrow>
         int k * step < int (length text) - maxlen"
proof -
  define stop where "stop = int (length text) - maxlen"
  define n where "n = nat ((stop + step - 1) div step)"
  define starts where "starts = map (\<lambda>k. int k * step) [0..<n]"
  have r: "py_range 0 stop step = Inr starts"
    using assms(2) by (simp add: py_range_def range_up_eq starts_def n_def)
  have k: "k < n \<longleftrightarrow> int k * step < stop" for k
    unfolding n_def using assms(2) by (rule count_iff)
  then show "k < nat ((int (length text) - maxlen + step - 1) div step) \<longleftrightarrow>
         int k * step < int (length text) - maxlen"
    by (simp add: n_def stop_def)
  have b: "\<forall>i \<in> set starts. 0 \<le> i \<and> i + maxlen < int (length text)"
    using k assms(2) by (auto simp: starts_def stop_def)
  have "windowing text maxlen step = window_loop text maxlen starts ([], [])"
    using r by (simp add: windowing_def stop_def)
  also have "\<dots> = Inr (map (\<lambda>i. take (nat maxlen) (drop (nat i) text)) starts,
        map (\<lambda>i. text ! nat (i + maxlen)) starts)"
    using window_loop_ok [OF assms(1) b, of "[]" "[]"] by simp
  also have "map (\<lambda>i. take (nat maxlen) (drop (nat i) text)) starts =
      map (\<lambda>k. take (nat maxlen) (drop (k * nat step) text)) [0..<n]"
    using assms(2) by (simp add: starts_def comp_def nat_mult_distrib)
  also have "map (\<lambda>i. text ! nat (i + maxlen)) starts =
      map (\<lambda>k. text ! (k * nat step + nat maxlen)) [0..<n]"
    using assms(1,2) by (simp add: starts_def comp_def nat_mult_distrib nat_add_distrib)
  finally show "windowing text maxlen step =
       Inr (map (\<lambda>k. take (nat maxlen) (drop (k * nat step) text))
              [0..<nat ((int (length text) - maxlen + step - 1) div step)],
            map (\<lambda>k. text ! (k * nat step + nat maxlen))
              [0..<nat ((int (length text) - maxlen + step - 1) div step)])"
    by (simp add: n_def stop_def)
qed

text \<open>
  C4. For a text longer than the window length \<open>maxlen\<close> and a stride \<open>step\<close>, the
  windowing loop returns exactly the windows \<open>text[i .. i+maxlen-1]\<close> and the next
  characters \<open>text[i+maxlen]\<close> for \<open>i = 0, step, 2*step, ...\<close> while
  \<open>i < len(text) - maxlen\<close>, in that order. On \<open>the cat sat\<close> with window 4 and
  stride 2 the pairs are (\<open>the \<close>, c), (\<open>e ca\<close>, t), (\<open>cat \<close>, s), (\<open>t sa\<close>, t).
\<close>

theorem windowing_pairs:
  assumes "0 \<le> maxlen" and "maxlen < int (length text)" and "0 < step"
  shows "\<exists>n. (\<forall>k. k < n \<longleftrightarrow> int k * step < int (length text) - maxlen) \<and>
     windowing text maxlen step =
       Inr (map (\<lambda>k. take (nat maxlen) (drop (k * nat step) text)) [0..<n],
            map (\<lambda>k. text ! (k * nat step + nat maxlen)) [0..<n]) \<and>
     windowing ''the cat sat'' 4 2 = Inr ([''the '', ''e ca'', ''cat '', ''t sa''], ''ctst'')"
proof -
  have e: "windowing ''the cat sat'' 4 2 = Inr ([''the '', ''e ca'', ''cat '', ''t sa''], ''ctst'')"
    by code_simp
  from windowing_closed_form [OF assms(1,3)] e show ?thesis by blast
qed

theorem windowing_pairs_witness:
  "(0::int) \<le> 4 \<and> (4::int) < int (length ''the cat sat'') \<and> (0::int) < 2 \<and>
   (\<exists>n. windowing ''the cat sat'' 4 2 =
       Inr (map (\<lambda>k. take (nat 4) (drop (k * nat 2) ''the cat sat'')) [0..<n],
            map (\<lambda>k. ''the cat sat'' ! (k * nat 2 + nat 4)) [0..<n]))"
proof -
  have h: "(0::int) \<le> 4" "(4::int) < int (length ''the cat sat'')" "(0::int) < 2" by simp_all
  from windowing_pairs [OF h] obtain n where
    "windowing ''the cat sat'' 4 2 =
       Inr (map (\<lambda>k. take (nat 4) (drop (k * nat 2) ''the cat sat'')) [0..<n],
            map (\<lambda>k. ''the cat sat'' ! (k * nat 2 + nat 4)) [0..<n])" by blast
  then have "\<exists>n. windowing ''the cat sat'' 4 2 =
       Inr (map (\<lambda>k. take (nat 4) (drop (k * nat 2) ''the cat sat'')) [0..<n],
            map (\<lambda>k. ''the cat sat'' ! (k * nat 2 + nat 4)) [0..<n])" by (rule exI)
  with h show ?thesis by (intro conjI)
qed

text \<open>
  C8. For a text longer than the window length, the windowing loop never raises
  \<open>IndexError\<close>, whatever the step: every start \<open>i\<close> the range yields satisfies
  \<open>0 \<le> i\<close> and \<open>i + maxlen < len(text)\<close>, so the slice \<open>text[i : i+maxlen]\<close> reads
  the positions \<open>i .. i+maxlen-1\<close> unclipped and the subscript \<open>text[i+maxlen]\<close>
  reads a position of the text.
\<close>

theorem windowing_in_bounds:
  assumes "0 \<le> maxlen" and "maxlen < int (length text)"
  shows "windowing text maxlen step \<noteq> Inl IndexError \<and>
     (\<forall>starts. py_range 0 (int (length text) - maxlen) step = Inr starts \<longrightarrow>
        (\<forall>i \<in> set starts. 0 \<le> i \<and> i + maxlen < int (length text) \<and>
           py_slice text i (i + maxlen) = map (\<lambda>j. text ! j) [nat i..<nat (i + maxlen)] \<and>
           py_index text (i + maxlen) = Inr (text ! nat (i + maxlen))))"
proof -
  define stop where "stop = int (length text) - maxlen"
  have stop: "0 < stop" using assms(2) by (simp add: stop_def)
  have b: "0 \<le> i \<and> i + maxlen < int (length text)"
    if "py_range 0 stop step = Inr starts" "i \<in> set starts" for starts i
  proof (cases "0 < step")
    case True
    with that have "i \<in> set (range_up 0 stop step)" by (auto simp: py_range_def)
    from range_up_bounds [OF this] show ?thesis by (simp add: stop_def)
  next
    case False
    with that stop have "i \<in> set (range_down 0 stop step)"
      by (auto simp: py_range_def split: if_splits)
    with stop show ?thesis by (simp add: range_down_empty)
  qed
  have s: "py_slice text i (i + maxlen) = map (\<lambda>j. text ! j) [nat i..<nat (i + maxlen)]"
    if "0 \<le> i" "i + maxlen < int (length text)" for i
  proof -
    have "py_slice text i (i + maxlen) = take (nat maxlen) (drop (nat i) text)"
      using that assms(1) by (simp add: py_slice_window)
    also have "\<dots> = map (\<lambda>j. text ! j) [nat i..<nat (i + maxlen)]"
      using that assms(1)
      by (intro nth_equalityI) (auto simp: nat_add_distrib)
    finally show ?thesis .
  qed
  have w: "windowing text maxlen step \<noteq> Inl IndexError"
  proof (cases "py_range 0 stop step")
    case (Inl e)
    then have "e = ValueError" by (auto simp: py_range_def split: if_splits)
    with Inl show ?thesis by (simp add: windowing_def stop_def)
  next
    case (Inr starts)
    with b have "\<forall>i \<in> set starts. 0 \<le> i \<and> i + maxlen < int (length text)" by blast
    from window_loop_ok [OF assms(1) this] Inr show ?thesis
      by (simp add: windowing_def stop_def)
  qed
  have p: "py_index text (i + maxlen) = Inr (text ! nat (i + maxlen))"
    if "0 \<le> i" "i + maxlen < int (length text)" for i
    using that assms(1) by (simp add: py_index_window)
  from w b s p show ?thesis unfolding stop_def by blast
qed

theorem windowing_in_bounds_witness:
  "(0::int) \<le> 4 \<and> (4::int) < int (length ''the cat sat'') \<and>
   windowing ''the cat sat'' 4 2 \<noteq> Inl IndexError \<and>
   py_range 0 (int (length ''the cat sat'') - 4) 2 = Inr [0, 2, 4, 6] \<and>
   (6::int) + 4 < int (length ''the cat sat'') \<and>
   py_index ''the cat sat'' (6 + 4) = Inr (''the cat sat'' ! nat (6 + 4))"
proof -
  have h: "(0::int) \<le> 4" "(4::int) < int (length ''the cat sat'')" by simp_all
  have r: "py_range 0 (int (length ''the cat sat'') - 4) 2 = Inr [0, 2, 4, 6]" by code_simp
  have m: "(6::int) \<in> set [0, 2, 4, 6]" by simp
  from windowing_in_bounds [OF h, of 2] r m h show ?thesis by blast
qed

subsection \<open>Vectorization\<close>

lemma one_hot_update: "k < v \<Longrightarrow> (replicate v False)[k := True] = one_hot v k"
  by (rule nth_equalityI) (auto simp: one_hot_def nth_list_update)

lemma encode_sentence_ok:
  assumes "i < length X"
    and "\<forall>c \<in> set s. \<exists>k. c2i c = Some k \<and> k < v"
    and "t0 + length s \<le> length (X ! i)"
    and "\<forall>t < length (X ! i). length (X ! i ! t) = v"
  shows "\<exists>X'. encode_sentence c2i i (enumerate t0 s) X = Inr X' \<and>
     length X' = length X \<and> (\<forall>j < length X. j \<noteq> i \<longrightarrow> X' ! j = X ! j) \<and>
     length (X' ! i) = length (X ! i) \<and>
     (\<forall>t < length (X ! i). X' ! i ! t =
        (if t0 \<le> t \<and> t < t0 + length s then (X ! i ! t)[the (c2i (s ! (t - t0))) := True]
         else X ! i ! t))"
  using assms
proof (induction s arbitrary: t0 X)
  case Nil
  then show ?case by auto
next
  case (Cons ch s)
  from Cons.prems(2) obtain k where k: "c2i ch = Some k" "k < v" by auto
  define X1 where "X1 = X[i := (X ! i)[t0 := (X ! i ! t0)[k := True]]]"
  have t0: "t0 < length (X ! i)" using Cons.prems(3) by simp
  have s3: "set3 X i t0 k = Inr X1"
    using Cons.prems(1,4) t0 k by (simp add: set3_def X1_def)
  have X1i: "X1 ! i = (X ! i)[t0 := (X ! i ! t0)[k := True]]"
    using Cons.prems(1) by (simp add: X1_def)
  have p1: "i < length X1" using Cons.prems(1) by (simp add: X1_def)
  have p2: "\<forall>c \<in> set s. \<exists>k. c2i c = Some k \<and> k < v" using Cons.prems(2) by simp
  have p3: "Suc t0 + length s \<le> length (X1 ! i)" using Cons.prems(3) by (simp add: X1i)
  have p4: "\<forall>t < length (X1 ! i). length (X1 ! i ! t) = v"
    using Cons.prems(4) t0 by (auto simp: X1i nth_list_update)
  from Cons.IH [OF p1 p2 p3 p4] obtain X' where
    r: "encode_sentence c2i i (enumerate (Suc t0) s) X1 = Inr X'"
    and l: "length X' = length X1"
    and o: "\<forall>j < length X1. j \<noteq> i \<longrightarrow> X' ! j = X1 ! j"
    and li: "length (X' ! i) = length (X1 ! i)"
    and e: "\<forall>t < length (X1 ! i). X' ! i ! t =
        (if Suc t0 \<le> t \<and> t < Suc t0 + length s then (X1 ! i ! t)[the (c2i (s ! (t - Suc t0))) := True]
         else X1 ! i ! t)"
    by blast
  have "encode_sentence c2i i (enumerate t0 (ch # s)) X = Inr X'"
    using r s3 k by (simp add: subscript_def)
  moreover have "length X' = length X" using l by (simp add: X1_def)
  moreover have "\<forall>j < length X. j \<noteq> i \<longrightarrow> X' ! j = X ! j"
    using o by (simp add: X1_def)
  moreover have "length (X' ! i) = length (X ! i)" using li by (simp add: X1i)
  moreover have "\<forall>t < length (X ! i). X' ! i ! t =
        (if t0 \<le> t \<and> t < t0 + length (ch # s) then (X ! i ! t)[the (c2i ((ch # s) ! (t - t0))) := True]
         else X ! i ! t)"
  proof (intro allI impI)
    fix t assume t: "t < length (X ! i)"
    then have "t < length (X1 ! i)" by (simp add: X1i)
    with e have e': "X' ! i ! t =
        (if Suc t0 \<le> t \<and> t < Suc t0 + length s then (X1 ! i ! t)[the (c2i (s ! (t - Suc t0))) := True]
         else X1 ! i ! t)" by blast
    show "X' ! i ! t =
        (if t0 \<le> t \<and> t < t0 + length (ch # s) then (X ! i ! t)[the (c2i ((ch # s) ! (t - t0))) := True]
         else X ! i ! t)"
    proof (cases "t = t0")
      case True
      with e' t k show ?thesis by (simp add: X1i)
    next
      case False
      then have "X1 ! i ! t = X ! i ! t" by (simp add: X1i)
      moreover have "t0 \<le> t \<Longrightarrow> (ch # s) ! (t - t0) = s ! (t - Suc t0)"
        using False by (simp add: nth_Cons')
      ultimately show ?thesis using e' False by auto
    qed
  qed
  ultimately show ?case by blast
qed


lemma encode_all_ok:
  assumes "length X = n" and "length y = n"
    and "i0 + length ss \<le> n" and "n \<le> length next_chars"
    and "\<forall>i. i0 \<le> i \<and> i < n \<longrightarrow> X ! i = replicate m (replicate v False)"
    and "\<forall>i. i0 \<le> i \<and> i < n \<longrightarrow> y ! i = replicate v False"
    and "\<forall>s \<in> set ss. length s = m \<and> (\<forall>c \<in> set s. \<exists>k. c2i c = Some k \<and> k < v)"
    and "\<forall>c \<in> set next_chars. \<exists>k. c2i c = Some k \<and> k < v"
  shows "\<exists>X' y'. encode_all c2i next_chars (enumerate i0 ss) (X, y) = Inr (X', y') \<and>
     length X' = n \<and> length y' = n \<and>
     (\<forall>i < n. X' ! i =
        (if i0 \<le> i \<and> i < i0 + length ss
         then map (\<lambda>t. one_hot v (the (c2i (ss ! (i - i0) ! t)))) [0..<m] else X ! i)) \<and>
     (\<forall>i < n. y' ! i =
        (if i0 \<le> i \<and> i < i0 + length ss
         then one_hot v (the (c2i (next_chars ! i))) else y ! i))"
  using assms
proof (induction ss arbitrary: i0 X y)
  case Nil
  then show ?case by auto
next
  case (Cons s rest)
  have i0: "i0 < n" using Cons.prems(3) by simp
  have ls: "length s = m" and cs: "\<forall>c \<in> set s. \<exists>k. c2i c = Some k \<and> k < v"
    using Cons.prems(7) by auto
  have Xi0: "X ! i0 = replicate m (replicate v False)" using Cons.prems(5) i0 by simp
  have a1: "i0 < length X" using i0 Cons.prems(1) by simp
  have a3: "0 + length s \<le> length (X ! i0)" by (simp add: Xi0 ls)
  have a4: "\<forall>t < length (X ! i0). length (X ! i0 ! t) = v" by (simp add: Xi0)
  from encode_sentence_ok [OF a1 cs a3 a4] obtain X1 where
    r1: "encode_sentence c2i i0 (enumerate 0 s) X = Inr X1"
    and l1: "length X1 = length X"
    and o1: "\<forall>j < length X. j \<noteq> i0 \<longrightarrow> X1 ! j = X ! j"
    and li1: "length (X1 ! i0) = length (X ! i0)"
    and e1: "\<forall>t < length (X ! i0). X1 ! i0 ! t =
        (if 0 \<le> t \<and> t < 0 + length s then (X ! i0 ! t)[the (c2i (s ! (t - 0))) := True]
         else X ! i0 ! t)"
    by blast
  have X1i0: "X1 ! i0 = map (\<lambda>t. one_hot v (the (c2i (s ! t)))) [0..<m]"
  proof (rule nth_equalityI)
    show "length (X1 ! i0) = length (map (\<lambda>t. one_hot v (the (c2i (s ! t)))) [0..<m])"
      by (simp add: li1 Xi0)
  next
    fix t assume "t < length (X1 ! i0)"
    then have t: "t < m" by (simp add: li1 Xi0)
    then have "s ! t \<in> set s" by (simp add: ls)
    with cs obtain k where k: "c2i (s ! t) = Some k" "k < v" by blast
    have "X1 ! i0 ! t = (replicate v False)[k := True]"
      using e1 t k by (simp add: Xi0 ls)
    also have "\<dots> = one_hot v k" using k by (simp add: one_hot_update)
    finally show "X1 ! i0 ! t = map (\<lambda>t. one_hot v (the (c2i (s ! t)))) [0..<m] ! t"
      using t k by simp
  qed
  have nc: "py_index next_chars (int i0) = Inr (next_chars ! i0)"
    using i0 Cons.prems(4) by (simp add: py_index_def)
  have "next_chars ! i0 \<in> set next_chars" using i0 Cons.prems(4) by simp
  with Cons.prems(8) obtain k where k: "c2i (next_chars ! i0) = Some k" "k < v" by blast
  define y1 where "y1 = y[i0 := (y ! i0)[k := True]]"
  have yi0: "y ! i0 = replicate v False" using Cons.prems(6) i0 by simp
  have s2: "set2 y i0 k = Inr y1"
    using i0 Cons.prems(2) k by (simp add: set2_def y1_def yi0)
  have y1i0: "y1 ! i0 = one_hot v k"
    using i0 Cons.prems(2) k by (simp add: y1_def yi0 one_hot_update)
  have step: "encode_all c2i next_chars (enumerate i0 (s # rest)) (X, y) =
      encode_all c2i next_chars (enumerate (Suc i0) rest) (X1, y1)"
    using r1 nc k s2 by (simp add: subscript_def)
  have b1: "length X1 = n" using l1 Cons.prems(1) by simp
  have b2: "length y1 = n" using Cons.prems(2) by (simp add: y1_def)
  have b3: "Suc i0 + length rest \<le> n" using Cons.prems(3) by simp
  have b5: "\<forall>i. Suc i0 \<le> i \<and> i < n \<longrightarrow> X1 ! i = replicate m (replicate v False)"
    using o1 Cons.prems(1,5) by auto
  have b6: "\<forall>i. Suc i0 \<le> i \<and> i < n \<longrightarrow> y1 ! i = replicate v False"
    using Cons.prems(6) by (auto simp: y1_def)
  have b7: "\<forall>s \<in> set rest. length s = m \<and> (\<forall>c \<in> set s. \<exists>k. c2i c = Some k \<and> k < v)"
    using Cons.prems(7) by simp
  from Cons.IH [OF b1 b2 b3 Cons.prems(4) b5 b6 b7 Cons.prems(8)] obtain X' y' where
    r: "encode_all c2i next_chars (enumerate (Suc i0) rest) (X1, y1) = Inr (X', y')"
    and lX: "length X' = n" and ly: "length y' = n"
    and eX: "\<forall>i < n. X' ! i =
        (if Suc i0 \<le> i \<and> i < Suc i0 + length rest
         then map (\<lambda>t. one_hot v (the (c2i (rest ! (i - Suc i0) ! t)))) [0..<m] else X1 ! i)"
    and ey: "\<forall>i < n. y' ! i =
        (if Suc i0 \<le> i \<and> i < Suc i0 + length rest
         then one_hot v (the (c2i (next_chars ! i))) else y1 ! i)"
    by blast
  have fX: "\<forall>i < n. X' ! i =
        (if i0 \<le> i \<and> i < i0 + length (s # rest)
         then map (\<lambda>t. one_hot v (the (c2i ((s # rest) ! (i - i0) ! t)))) [0..<m] else X ! i)"
  proof (intro allI impI)
    fix i assume i: "i < n"
    show "X' ! i =
        (if i0 \<le> i \<and> i < i0 + length (s # rest)
         then map (\<lambda>t. one_hot v (the (c2i ((s # rest) ! (i - i0) ! t)))) [0..<m] else X ! i)"
    proof (cases "i = i0")
      case True
      with eX i X1i0 show ?thesis by simp
    next
      case False
      then have "X1 ! i = X ! i" using o1 i Cons.prems(1) by simp
      moreover have "i0 \<le> i \<Longrightarrow> (s # rest) ! (i - i0) = rest ! (i - Suc i0)"
        using False by (simp add: nth_Cons')
      ultimately show ?thesis using eX i False by auto
    qed
  qed
  have fy: "\<forall>i < n. y' ! i =
        (if i0 \<le> i \<and> i < i0 + length (s # rest)
         then one_hot v (the (c2i (next_chars ! i))) else y ! i)"
  proof (intro allI impI)
    fix i assume i: "i < n"
    show "y' ! i =
        (if i0 \<le> i \<and> i < i0 + length (s # rest)
         then one_hot v (the (c2i (next_chars ! i))) else y ! i)"
    proof (cases "i = i0")
      case True
      with ey i y1i0 k show ?thesis by simp
    next
      case False
      then have "y1 ! i = y ! i" by (simp add: y1_def)
      then show ?thesis using ey i False by auto
    qed
  qed
  from step r lX ly fX fy show ?case by simp
qed


lemma char2idx_total:
  "c \<in> set text \<Longrightarrow> \<exists>k. char2idx text c = Some k \<and> k < length (chars text)"
proof -
  assume "c \<in> set text"
  then have "c \<in> set (chars text)" by (simp add: chars_props)
  then obtain i where "i < length (chars text)" "chars text ! i = c"
    by (auto simp: in_set_conv_nth)
  then show ?thesis by (auto simp: char2idx_Some_iff)
qed

text \<open>
  C5. Run on a corpus, the vectorization returns a tensor \<open>X\<close> of shape (number of
  windows, \<open>maxlen\<close>, vocabulary size) and a tensor \<open>y\<close> of shape (number of windows,
  vocabulary size): every row \<open>X[i, t, :]\<close> is the one-hot code of \<open>char2idx\<close> of the
  \<open>t\<close>-th character of window \<open>i\<close>, and every row \<open>y[i, :]\<close> is the one-hot code of
  \<open>char2idx\<close> of the character that follows window \<open>i\<close>.
\<close>

theorem vectorize_one_hot:
  assumes "0 \<le> maxlen" and "0 < step"
  shows "\<exists>sentences next_chars X y.
     windowing text maxlen step = Inr (sentences, next_chars) \<and>
     prepare text maxlen step = Inr (X, y) \<and>
     length X = length sentences \<and> length y = length sentences \<and>
     (\<forall>i < length sentences.
        length (X ! i) = nat maxlen \<and>
        (\<forall>t < nat maxlen. \<exists>k < length (chars text).
           char2idx text (sentences ! i ! t) = Some k \<and>
           X ! i ! t = one_hot (length (chars text)) k) \<and>
        (\<exists>k < length (chars text).
           char2idx text (next_chars ! i) = Some k \<and>
           y ! i = one_hot (length (chars text)) k))"
proof -
  define n where "n = nat ((int (length text) - maxlen + step - 1) div step)"
  define m where "m = nat maxlen"
  define v where "v = length (chars text)"
  define sentences where "sentences = map (\<lambda>k. take m (drop (k * nat step) text)) [0..<n]"
  define next_chars where "next_chars = map (\<lambda>k. text ! (k * nat step + m)) [0..<n]"
  define c2i where "c2i = char2idx text"
  have w: "windowing text maxlen step = Inr (sentences, next_chars)"
    using windowing_closed_form(1) [OF assms]
    by (simp add: sentences_def next_chars_def n_def m_def)
  have kb: "k * nat step + m < length text" if "k < n" for k
  proof -
    from that have "int k * step < int (length text) - maxlen"
      using windowing_closed_form(2) [OF assms] by (simp add: n_def)
    then have "int (k * nat step + m) < int (length text)"
      using assms by (simp add: m_def)
    then show ?thesis by linarith
  qed
  have ls: "length sentences = n" and ln: "length next_chars = n"
    by (simp_all add: sentences_def next_chars_def)
  have sent: "\<forall>s \<in> set sentences. length s = m \<and> (\<forall>c \<in> set s. \<exists>k. c2i c = Some k \<and> k < v)"
  proof
    fix s assume "s \<in> set sentences"
    then obtain k where k: "k < n" and s: "s = take m (drop (k * nat step) text)"
      by (auto simp: sentences_def)
    have "length s = m" using kb [OF k] by (simp add: s)
    moreover have "set s \<subseteq> set text"
      unfolding s by (meson set_take_subset set_drop_subset subset_trans)
    ultimately show "length s = m \<and> (\<forall>c \<in> set s. \<exists>k. c2i c = Some k \<and> k < v)"
      using char2idx_total unfolding c2i_def v_def by blast
  qed
  have nxt: "\<forall>c \<in> set next_chars. \<exists>k. c2i c = Some k \<and> k < v"
  proof
    fix c assume "c \<in> set next_chars"
    then obtain k where "k < n" "c = text ! (k * nat step + m)"
      by (auto simp: next_chars_def)
    with kb have "c \<in> set text" by simp
    then show "\<exists>k. c2i c = Some k \<and> k < v"
      using char2idx_total unfolding c2i_def v_def by blast
  qed
  define X0 where "X0 = replicate n (replicate m (replicate v False))"
  define y0 where "y0 = replicate n (replicate v False)"
  have z: "zeros3 (length sentences) maxlen (length (chars text)) = Inr X0"
    using assms(1) by (simp add: zeros3_def X0_def ls m_def v_def)
  have c1: "length X0 = n" and c2: "length y0 = n" by (simp_all add: X0_def y0_def)
  have c3: "0 + length sentences \<le> n" and c4: "n \<le> length next_chars"
    by (simp_all add: ls ln)
  have c5: "\<forall>i. 0 \<le> i \<and> i < n \<longrightarrow> X0 ! i = replicate m (replicate v False)"
    by (simp add: X0_def)
  have c6: "\<forall>i. 0 \<le> i \<and> i < n \<longrightarrow> y0 ! i = replicate v False"
    by (simp add: y0_def)
  from encode_all_ok [OF c1 c2 c3 c4 c5 c6 sent nxt] obtain X y where
    r: "encode_all c2i next_chars (enumerate 0 sentences) (X0, y0) = Inr (X, y)"
    and lX: "length X = n" and ly: "length y = n"
    and eX: "\<forall>i < n. X ! i =
        (if 0 \<le> i \<and> i < 0 + length sentences
         then map (\<lambda>t. one_hot v (the (c2i (sentences ! (i - 0) ! t)))) [0..<m] else X0 ! i)"
    and ey: "\<forall>i < n. y ! i =
        (if 0 \<le> i \<and> i < 0 + length sentences
         then one_hot v (the (c2i (next_chars ! i))) else y0 ! i)"
    by blast
  have p: "prepare text maxlen step = Inr (X, y)"
    using w z r by (simp add: prepare_def vectorize_def c2i_def y0_def zeros2_def ls v_def)
  have rows: "length (X ! i) = nat maxlen \<and>
        (\<forall>t < nat maxlen. \<exists>k < length (chars text).
           char2idx text (sentences ! i ! t) = Some k \<and>
           X ! i ! t = one_hot (length (chars text)) k) \<and>
        (\<exists>k < length (chars text).
           char2idx text (next_chars ! i) = Some k \<and>
           y ! i = one_hot (length (chars text)) k)" if i: "i < length sentences" for i
  proof -
    have i': "i < n" using i by (simp add: ls)
    have Xi: "X ! i = map (\<lambda>t. one_hot v (the (c2i (sentences ! i ! t)))) [0..<m]"
      using eX i' ls by simp
    have yi: "y ! i = one_hot v (the (c2i (next_chars ! i)))"
      using ey i' ls by simp
    have si: "sentences ! i \<in> set sentences" using i by simp
    have a: "length (X ! i) = nat maxlen" by (simp add: Xi m_def)
    have b: "\<exists>k < length (chars text).
           char2idx text (sentences ! i ! t) = Some k \<and>
           X ! i ! t = one_hot (length (chars text)) k" if "t < nat maxlen" for t
    proof -
      from that have t: "t < m" by (simp add: m_def)
      with sent si have "sentences ! i ! t \<in> set (sentences ! i)" by simp
      with sent si obtain k where k: "c2i (sentences ! i ! t) = Some k" "k < v" by blast
      have "X ! i ! t = one_hot v k" using t k by (simp add: Xi)
      with k show ?thesis unfolding c2i_def v_def by blast
    qed
    have "next_chars ! i \<in> set next_chars" using i' ln by simp
    with nxt obtain k where k: "c2i (next_chars ! i) = Some k" "k < v" by blast
    then have "y ! i = one_hot v k" by (simp add: yi)
    with k have c: "\<exists>k < length (chars text).
           char2idx text (next_chars ! i) = Some k \<and>
           y ! i = one_hot (length (chars text)) k" unfolding c2i_def v_def by blast
    from a b c show ?thesis by blast
  qed
  from w p lX ly ls rows show ?thesis by (intro exI [of _ sentences] exI [of _ next_chars] exI [of _ X] exI [of _ y]) simp
qed


theorem vectorize_one_hot_witness:
  "(0::int) \<le> 2 \<and> (0::int) < 1 \<and>
   prepare ''abcab'' 2 1 =
     Inr ([[[True, False, False], [False, True, False]],
           [[False, True, False], [False, False, True]],
           [[False, False, True], [True, False, False]]],
          [[False, False, True], [True, False, False], [False, True, False]]) \<and>
   (\<exists>sentences next_chars X y.
     windowing ''abcab'' 2 1 = Inr (sentences, next_chars) \<and>
     prepare ''abcab'' 2 1 = Inr (X, y) \<and>
     length X = length sentences \<and> length y = length sentences \<and>
     (\<forall>i < length sentences.
        length (X ! i) = nat 2 \<and>
        (\<forall>t < nat 2. \<exists>k < length (chars ''abcab'').
           char2idx ''abcab'' (sentences ! i ! t) = Some k \<and>
           X ! i ! t = one_hot (length (chars ''abcab'')) k) \<and>
        (\<exists>k < length (chars ''abcab'').
           char2idx ''abcab'' (next_chars ! i) = Some k \<and>
           y ! i = one_hot (length (chars ''abcab'')) k)))"
proof -
  have h: "(0::int) \<le> 2" "(0::int) < 1" by simp_all
  have e: "prepare ''abcab'' 2 1 =
     Inr ([[[True, False, False], [False, True, False]],
           [[False, True, False], [False, False, True]],
           [[False, False, True], [True, False, False]]],
          [[False, False, True], [True, False, False], [False, True, False]])"
    by code_simp
  note t = vectorize_one_hot [OF h]
  from h e t show ?thesis by (intro conjI)
qed

subsection \<open>The sampler\<close>

lemma foldl_fadd_Fin: "foldl fadd (Fin a) (map Fin xs) = Fin (a + sum_list xs)"
  by (induction xs arbitrary: a) (simp_all add: add.assoc)

lemma np_sum_Fin: "np_sum (map Fin xs) = Fin (sum_list xs)"
  by (simp add: np_sum_def foldl_fadd_Fin)

lemma argmax_loop_spec:
  assumes "best < length ys" and "m = ys ! best"
    and "\<forall>l < length ys. ys ! l \<le> m" and "\<forall>l < best. ys ! l < m"
  shows "argmax_loop xs (length ys) best m < length (ys @ xs) \<and>
     (\<forall>l < length (ys @ xs). (ys @ xs) ! l \<le> (ys @ xs) ! argmax_loop xs (length ys) best m) \<and>
     (\<forall>l < argmax_loop xs (length ys) best m.
        (ys @ xs) ! l < (ys @ xs) ! argmax_loop xs (length ys) best m)"
  using assms
proof (induction xs arbitrary: ys best m)
  case Nil
  then show ?case by simp
next
  case (Cons x xs)
  show ?case
  proof (cases "m < x")
    case True
    have a: "length ys < length (ys @ [x])" "x = (ys @ [x]) ! length ys" by simp_all
    have b: "\<forall>l < length (ys @ [x]). (ys @ [x]) ! l \<le> x"
      using Cons.prems(3) True by (auto simp: nth_append less_Suc_eq)
    have c: "\<forall>l < length ys. (ys @ [x]) ! l < x"
      using Cons.prems(3) True by (auto simp: nth_append)
    from Cons.IH [OF a b c] True show ?thesis by simp
  next
    case False
    have a: "best < length (ys @ [x])" "m = (ys @ [x]) ! best"
      using Cons.prems(1,2) by (simp_all add: nth_append)
    have b: "\<forall>l < length (ys @ [x]). (ys @ [x]) ! l \<le> m"
      using Cons.prems(3) False by (auto simp: nth_append less_Suc_eq)
    have c: "\<forall>l < best. (ys @ [x]) ! l < m"
      using Cons.prems(1,4) by (auto simp: nth_append)
    from Cons.IH [OF a b c] False show ?thesis by simp
  qed
qed

lemma np_argmax_spec:
  assumes "np_argmax a = Inr r"
  shows "r < length (concat a) \<and> (\<forall>l < length (concat a). concat a ! l \<le> concat a ! r) \<and>
     (\<forall>l < r. concat a ! l < concat a ! r)"
proof (cases "concat a")
  case Nil
  with assms show ?thesis by (simp add: np_argmax_def)
next
  case (Cons x xs)
  with assms have r: "r = argmax_loop xs (length [x]) 0 x" by (simp add: np_argmax_def)
  have "0 < length [x]" "x = [x] ! 0" "\<forall>l < length [x]. [x] ! l \<le> x" "\<forall>l < (0::nat). [x] ! l < x"
    by simp_all
  from argmax_loop_spec [OF this, of xs] show ?thesis
    unfolding r [symmetric] Cons by simp
qed

lemma np_argmax_nonempty: "concat a \<noteq> [] \<Longrightarrow> \<exists>r. np_argmax a = Inr r"
  by (cases "concat a") (simp_all add: np_argmax_def)

lemma np_argmax_row:
  assumes "i < d"
  shows "np_argmax [map (\<lambda>j. if j = i then 1 else 0) [0..<d]] = Inr i"
proof -
  define row :: "int list" where "row = map (\<lambda>j. if j = i then 1 else 0) [0..<d]"
  have ne: "concat [row] \<noteq> []" using assms by (auto simp: row_def)
  then obtain r where r: "np_argmax [row] = Inr r" using np_argmax_nonempty by blast
  from np_argmax_spec [OF r] have rd: "r < length row"
    and mx: "\<forall>l < length row. row ! l \<le> row ! r"
    by simp_all
  have lr: "length row = d" by (simp add: row_def)
  have "row ! i = 1" using assms by (simp add: row_def)
  moreover have "row ! i \<le> row ! r" using mx assms lr by simp
  moreover have "row ! r = (if r = i then 1 else 0)" using rd lr by (simp add: row_def)
  ultimately have "r = i" by (simp split: if_splits)
  with r show ?thesis by (simp add: row_def)
qed

lemma rk_binomial_reads: "snd (rk_binomial p rng) = stl rng"
  by (simp add: rk_binomial_def rk_binomial_inversion_def rk_double_def)


lemma rk_binomial_never: "shd rng \<le> 1 \<Longrightarrow> fst (rk_binomial 0 rng) = 0"
  by (simp add: rk_binomial_def rk_binomial_inversion_def rk_double_def)

lemma rk_binomial_always: "shd rng \<le> 1 \<Longrightarrow> fst (rk_binomial 1 rng) = 1"
  by (simp add: rk_binomial_def rk_binomial_inversion_def rk_double_def)

lemma first_taken_Cons:
  "first_taken (p # ps) mass j rng =
     (if 1 \<le> fst (rk_binomial (p / mass) rng) then (j, stl rng)
      else first_taken ps (mass - p) (Suc j) (stl rng))"
  using rk_binomial_reads [of "p / mass" rng]
  by (cases "rk_binomial (p / mass) rng") simp

lemma first_taken_bound: "fst (first_taken ps mass j rng) \<le> j + length ps"
proof (induction ps arbitrary: mass j rng)
  case Nil
  show ?case by simp
next
  case (Cons p ps)
  have "fst (first_taken ps (mass - p) (Suc j) (stl rng)) \<le> Suc j + length ps"
    by (rule Cons.IH)
  then show ?case by (simp add: first_taken_Cons del: first_taken.simps)
qed

lemma finite_values_Fin: "finite_values (map Fin xs) = Some xs"
  by (induction xs) simp_all




lemma sum_list_butlast: "q \<noteq> [] \<Longrightarrow> sum_list (butlast q) = sum_list q - (last q :: real)"
  by (induction q) auto

lemma multinomial1_distribution:
  assumes "q \<noteq> []" and "\<forall>x \<in> set q. 0 \<le> x \<and> x \<le> 1" and "sum_list q = 1"
  shows "multinomial1 (map Fin q) rng =
     Inr ([map (\<lambda>j. if j = fst (first_taken (butlast q) 1 0 rng) then 1 else 0) [0..<length q]],
          snd (first_taken (butlast q) 1 0 rng))"
proof -
  have "last q \<in> set q" using assms(1) by simp
  with assms(2) have "0 \<le> last q" by blast
  then have "sum_list (butlast q) \<le> 1" using assms(1,3) by (simp add: sum_list_butlast)
  then have "\<not> 1 + 1 / 10 ^ 12 < sum_list (butlast q)" by simp
  moreover have "\<not> list_ex (\<lambda>p. p < 0 \<or> 1 < p) q"
    using assms(2) by (auto simp: list_ex_iff)
  ultimately show ?thesis
    by (simp add: multinomial1_def finite_values_Fin case_prod_unfold Let_def)
qed

lemma sample_distribution:
  assumes "tempered preds temperature = map Fin q"
    and "q \<noteq> []" and "\<forall>x \<in> set q. 0 \<le> x \<and> x \<le> 1" and "sum_list q = 1"
  shows "sample preds temperature rng = Inr (first_taken (butlast q) 1 0 rng)"
proof -
  define i where "i = fst (first_taken (butlast q) 1 0 rng)"
  have "i \<le> length q - 1"
    using first_taken_bound [of "butlast q" 1 0 rng] by (simp add: i_def)
  moreover have "1 \<le> length q" using assms(2) by (cases q) simp_all
  ultimately have i: "i < length q" by linarith
  show ?thesis
    unfolding sample_def Let_def assms(1) multinomial1_distribution [OF assms(2,3,4)]
    using np_argmax_row [OF i]
    by (simp add: i_def)
qed

lemma one_hot_real: 
  "k < d \<Longrightarrow> map (\<lambda>j. if j = k then 1 else 0) [0..<d] = replicate k (0::real) @ 1 # replicate (d - Suc k) 0"
  by (rule nth_equalityI) (auto simp: nth_append nth_Cons')

lemma first_taken_zeros:
  "\<forall>u \<in> sset rng. u \<le> 1 \<Longrightarrow>
   first_taken (replicate a 0 @ rest) 1 j rng = first_taken rest 1 (j + a) (sdrop a rng)"
proof (induction a arbitrary: j rng)
  case 0
  show ?case by simp
next
  case (Suc a)
  have "shd rng \<le> 1" using Suc.prems by (simp add: shd_sset)
  then have "fst (rk_binomial 0 rng) = 0" by (rule rk_binomial_never)
  moreover have "\<forall>u \<in> sset (stl rng). u \<le> 1" using Suc.prems by (auto dest: stl_sset)
  ultimately show ?case using Suc.IH [of "stl rng" "Suc j"]
    by (simp add: first_taken_Cons del: first_taken.simps)
qed

lemma butlast_replicate_Suc: "butlast (replicate (Suc n) x) = replicate n x"
  by (simp only: replicate_Suc replicate_append_same [symmetric] butlast_snoc)

lemma first_taken_one_hot:
  assumes "k < d" and "\<forall>u \<in> sset rng. 0 \<le> u \<and> u < 1"
  shows "fst (first_taken (butlast (map (\<lambda>j. if j = k then 1 else 0) [0..<d])) 1 0 rng) = k"
proof -
  have z: "\<forall>u \<in> sset rng. u \<le> 1" using assms(2) by (auto intro: less_imp_le)
  show ?thesis
  proof (cases "d - Suc k")
    case 0
    then have "butlast (replicate k (0::real) @ 1 # replicate (d - Suc k) 0) = replicate k 0 @ []"
      by simp
    then show ?thesis
      using first_taken_zeros [OF z, of k "[]" 0]
      by (simp add: one_hot_real [OF assms(1)])
  next
    case (Suc n)
    then have b: "butlast (replicate k (0::real) @ 1 # replicate (d - Suc k) 0) =
        replicate k 0 @ 1 # replicate n 0"
      using butlast_replicate_Suc [of n "0::real"] by (simp add: butlast_append)
    have "shd (sdrop k rng) \<in> sset rng"
      by (simp add: snth_sset)
    with z have "shd (sdrop k rng) \<le> 1" by blast
    then have "fst (rk_binomial 1 (sdrop k rng)) = 1" by (rule rk_binomial_always)
    then show ?thesis
      using first_taken_zeros [OF z, of k "1 # replicate n 0" 0]
      by (simp add: one_hot_real [OF assms(1)] b first_taken_Cons del: first_taken.simps)
  qed
qed

lemma tempered_one_hot:
  assumes "k < d" and "0 < T"
  shows "tempered (map (\<lambda>j. Fin (if j = k then 1 else 0)) [0..<d]) (Fin T) =
     map Fin (map (\<lambda>j. if j = k then 1 else 0) [0..<d])"
proof -
  have e: "map np_exp (map (\<lambda>p. fdiv (np_log p) (Fin T)) (map (\<lambda>j. Fin (if j = k then 1 else 0)) [0..<d])) =
      map Fin (map (\<lambda>j. if j = k then 1 else 0) [0..<d])"
    using assms(2) by (simp add: comp_def)
  have "sum_list (map (\<lambda>j. if j = k then 1 else 0) [0..<d]) = (1::real)"
    by (simp add: one_hot_real [OF assms(1)] sum_list_replicate)
  then have n: "np_sum (map Fin (map (\<lambda>j. if j = k then 1 else 0) [0..<d])) = Fin 1"
    by (simp only: np_sum_Fin)
  show ?thesis
    unfolding tempered_def Let_def e n by (simp add: comp_def)
qed



text \<open>
  C2. On a one-hot vector (1 at index \<open>k\<close>, 0 elsewhere) and a positive temperature,
  every draw returns \<open>k\<close>: whatever variates of \<open>[0, 1)\<close> the generator hands out,
  \<open>sample\<close> returns the index \<open>k\<close>.
\<close>

theorem sample_one_hot:
  assumes "k < d" and "0 < T" and "\<forall>u \<in> sset rng. 0 \<le> u \<and> u < 1"
  shows "\<exists>rng'. sample (map (\<lambda>j. Fin (if j = k then 1 else 0)) [0..<d]) (Fin T) rng = Inr (k, rng')"
proof -
  define q :: "real list" where "q = map (\<lambda>j. if j = k then 1 else 0) [0..<d]"
  have q: "q \<noteq> []" "\<forall>x \<in> set q. 0 \<le> x \<and> x \<le> 1" "sum_list q = 1"
    using assms(1) by (auto simp: q_def one_hot_real sum_list_replicate)
  have t: "tempered (map (\<lambda>j. Fin (if j = k then 1 else 0)) [0..<d]) (Fin T) = map Fin q"
    unfolding q_def by (rule tempered_one_hot [OF assms(1,2)])
  have "fst (first_taken (butlast q) 1 0 rng) = k"
    unfolding q_def by (rule first_taken_one_hot [OF assms(1,3)])
  with sample_distribution [OF t q, of rng] show ?thesis
    by (cases "first_taken (butlast q) 1 0 rng") auto
qed

theorem sample_one_hot_witness:
  "(1::nat) < 3 \<and> (0::real) < 2 \<and> sset (sconst (1 / 4 :: real)) = {1 / 4} \<and>
   (\<exists>rng'. sample [Fin 0, Fin 1, Fin 0] (Fin 2) (sconst (1 / 4)) = Inr (1, rng'))"
proof -
  have h: "(1::nat) < 3" "(0::real) < 2" "\<forall>u \<in> sset (sconst (1 / 4 :: real)). 0 \<le> u \<and> u < 1"
    by simp_all
  have l: "map (\<lambda>j. Fin (if j = 1 then 1 else 0)) [0..<3] = [Fin 0, Fin 1, Fin 0]"
    by (simp add: upt_rec)
  from sample_one_hot [OF h] l show ?thesis by simp
qed



subsection \<open>The generator state\<close>







end
